theory Spec2Isabelle
  imports Main
begin

section \<open>Python values: exceptions, results, list indexing\<close>

text \<open>
  The engine is the class \<open>Connect4\<close>, present once in \<open>connect4.py\<close> and once in
  \<open>connectk4.py\<close>. A call of a method either returns a value, raises an exception or
  does not come back (the inner \<open>while\<close> loop of the win detector has no bound of its
  own). A result is therefore \<open>None\<close> when the call runs forever, \<open>Some (Inl e)\<close> when
  it raises \<open>e\<close> and \<open>Some (Inr v)\<close> when it returns \<open>v\<close>.
\<close>

datatype error = IndexError

type_synonym 'a result = "(error + 'a) option"

abbreviation Returns :: "'a \<Rightarrow> 'a result" where
  "Returns v \<equiv> Some (Inr v)"

abbreviation Raises :: "error \<Rightarrow> 'a result" where
  "Raises e \<equiv> Some (Inl e)"

definition bind_result :: "'a result \<Rightarrow> ('a \<Rightarrow> 'b result) \<Rightarrow> 'b result" where
  "bind_result m f = (case m of None \<Rightarrow> None | Some (Inl e) \<Rightarrow> Raises e | Some (Inr v) \<Rightarrow> f v)"

text \<open>
  \<open>xs[i]\<close> of Python: an index in \<open>[0, len)\<close> reads from the front, one in
  \<open>[-len, 0)\<close> reads from the back, anything else raises \<open>IndexError\<close>.
\<close>

definition py_index :: "'a list \<Rightarrow> int \<Rightarrow> 'a result" where
  "py_index xs i =
     (if 0 \<le> i \<and> i < int (length xs) then Returns (xs ! nat i)
      else if - int (length xs) \<le> i \<and> i < 0 then Returns (xs ! nat (int (length xs) + i))
      else Raises IndexError)"

text \<open>\<open>xs[i] = v\<close> of Python, with the same index rule.\<close>

definition py_store :: "'a list \<Rightarrow> int \<Rightarrow> 'a \<Rightarrow> 'a list result" where
  "py_store xs i v =
     (if 0 \<le> i \<and> i < int (length xs) then Returns (xs[nat i := v])
      else if - int (length xs) \<le> i \<and> i < 0 then Returns (xs[nat (int (length xs) + i) := v])
      else Raises IndexError)"

text \<open>\<open>range(n)\<close>: the integers \<open>0, ..., n - 1\<close>, none when \<open>n \<le> 0\<close>.\<close>

definition py_range :: "int \<Rightarrow> int list" where
  "py_range n = map int [0..<nat n]"

section \<open>The engine of connect4.py\<close>

text \<open>
  The board is a list of rows, each a list of cells: \<open>-1\<close> is empty, \<open>0\<close> and \<open>1\<close> are
  the players. The rows are built by a list comprehension, so no two rows are the same
  object and a nested list of values models them.
\<close>

type_synonym board = "int list list"

type_synonym span = "(int \<times> int) \<times> (int \<times> int)"

definition ROWS :: int where
  "ROWS = 6"

definition COLS :: int where
  "COLS = 7"

record game =
  rows :: int
  cols :: int
  board :: board
  current :: int
  winner :: "int option"
  move_count :: int
  win_line :: "span option"

text \<open>\<open>self.board[r][c]\<close> and \<open>self.board[r][c] = v\<close>.\<close>

definition cell :: "board \<Rightarrow> int \<Rightarrow> int \<Rightarrow> int result" where
  "cell b r c = bind_result (py_index b r) (\<lambda>line. py_index line c)"

definition set_cell :: "board \<Rightarrow> int \<Rightarrow> int \<Rightarrow> int \<Rightarrow> board result" where
  "set_cell b r c v =
     bind_result (py_index b r) (\<lambda>line.
     bind_result (py_store line c v) (\<lambda>line'.
     py_store b r line'))"

text \<open>\<open>Connect4.__init__\<close>\<close>

definition init :: game where
  "init =
     \<lparr>rows = ROWS, cols = COLS,
      board = map (\<lambda>_. map (\<lambda>_. - 1) (py_range COLS)) (py_range ROWS),
      current = 0, winner = None, move_count = 0, win_line = None\<rparr>"

text \<open>\<open>Connect4.reset\<close>: the two nested \<open>for\<close> loops, then the four assignments.\<close>

fun reset_cols :: "board \<Rightarrow> int \<Rightarrow> int list \<Rightarrow> board result" where
  "reset_cols b r [] = Returns b"
| "reset_cols b r (c # cs) = bind_result (set_cell b r c (- 1)) (\<lambda>b'. reset_cols b' r cs)"

fun reset_rows :: "board \<Rightarrow> int list \<Rightarrow> int list \<Rightarrow> board result" where
  "reset_rows b [] cs = Returns b"
| "reset_rows b (r # rs) cs = bind_result (reset_cols b r cs) (\<lambda>b'. reset_rows b' rs cs)"

definition reset :: "game \<Rightarrow> game result" where
  "reset s =
     bind_result (reset_rows (board s) (py_range (rows s)) (py_range (cols s))) (\<lambda>b.
     Returns (s\<lparr>board := b, current := 0, winner := None, move_count := 0, win_line := None\<rparr>))"

text \<open>\<open>Connect4.is_draw\<close>\<close>

definition is_draw :: "game \<Rightarrow> bool" where
  "is_draw s = (winner s = None \<and> move_count s = rows s * cols s)"

text \<open>
  The loop of the closure \<open>count_and_last\<close> inside \<open>Connect4._winning_span\<close>:
  the loop variables are \<open>rr, cc, n, last_r, last_c\<close>. With \<open>dr = dc = 0\<close> on a
  matching cell the loop does not end, so the function is partial.
\<close>

partial_function (option) count_loop ::
  "game \<Rightarrow> int \<Rightarrow> int \<Rightarrow> int \<Rightarrow> int \<Rightarrow> int \<Rightarrow> int \<Rightarrow> int \<Rightarrow> int \<Rightarrow> (int \<times> int \<times> int) result" where
  "count_loop s player dr dc rr cc n last_r last_c =
     (if 0 \<le> rr \<and> rr < rows s \<and> 0 \<le> cc \<and> cc < cols s then
        (case cell (board s) rr cc of
           None \<Rightarrow> None
         | Some (Inl e) \<Rightarrow> Raises e
         | Some (Inr v) \<Rightarrow>
             if v = player
             then count_loop s player dr dc (rr + dr) (cc + dc) (n + 1) rr cc
             else Returns (n, last_r, last_c))
      else Returns (n, last_r, last_c))"

declare count_loop.simps [code]

definition count_and_last :: "game \<Rightarrow> int \<Rightarrow> int \<Rightarrow> int \<Rightarrow> int \<Rightarrow> int \<Rightarrow> (int \<times> int \<times> int) result" where
  "count_and_last s player r c dr dc = count_loop s player dr dc (r + dr) (c + dc) 0 r c"

text \<open>The \<open>for dr, dc in ((0, 1), (1, 0), (1, 1), (1, -1))\<close> loop of \<open>_winning_span\<close>.\<close>

definition directions :: "(int \<times> int) list" where
  "directions = [(0, 1), (1, 0), (1, 1), (1, - 1)]"

fun span_loop :: "game \<Rightarrow> int \<Rightarrow> int \<Rightarrow> int \<Rightarrow> (int \<times> int) list \<Rightarrow> span option result" where
  "span_loop s player r c [] = Returns None"
| "span_loop s player r c ((dr, dc) # ds) =
     bind_result (count_and_last s player r c dr dc) (\<lambda>(f_count, f_r, f_c).
     bind_result (count_and_last s player r c (- dr) (- dc)) (\<lambda>(b_count, b_r, b_c).
     if 1 + f_count + b_count \<ge> 4 then Returns (Some ((b_r, b_c), (f_r, f_c)))
     else span_loop s player r c ds))"

text \<open>\<open>Connect4._winning_span\<close>\<close>

definition winning_span :: "game \<Rightarrow> int \<Rightarrow> int \<Rightarrow> span option result" where
  "winning_span s r c =
     bind_result (cell (board s) r c) (\<lambda>player.
     if player = - 1 then Returns None
     else span_loop s player r c directions)"

text \<open>The \<open>while row >= 0 and self.board[row][col] != -1\<close> loop of \<open>Connect4.drop\<close>.\<close>

function find_row :: "game \<Rightarrow> int \<Rightarrow> int \<Rightarrow> int result" where
  "find_row s col row =
     (if row \<ge> 0 then
        bind_result (cell (board s) row col) (\<lambda>v.
        if v \<noteq> - 1 then find_row s col (row - 1) else Returns row)
      else Returns row)"
  by pat_completeness auto
termination
  by (relation "measure (\<lambda>(s, col, row). nat (row + 1))") auto

declare find_row.simps [simp del]

text \<open>
  \<open>Connect4.drop\<close>, named \<open>drop_disc\<close> here because \<open>drop\<close> is a function on
  lists: the returned pair is the value of the call (\<open>None\<close> or the row) and the state
  it leaves.
\<close>

definition drop_disc :: "game \<Rightarrow> int \<Rightarrow> (int option \<times> game) result" where
  "drop_disc s col =
     (if winner s \<noteq> None then Returns (None, s)
      else if \<not> (0 \<le> col \<and> col < cols s) then Returns (None, s)
      else
        bind_result (cell (board s) 0 col) (\<lambda>top.
        if top \<noteq> - 1 then Returns (None, s)
        else
          bind_result (find_row s col (rows s - 1)) (\<lambda>row.
          bind_result (set_cell (board s) row col (current s)) (\<lambda>b.
          let s1 = s\<lparr>board := b, move_count := move_count s + 1\<rparr> in
          bind_result (winning_span s1 row col) (\<lambda>win_span.
          case win_span of
            Some line \<Rightarrow> Returns (Some row, s1\<lparr>winner := Some (current s1), win_line := Some line\<rparr>)
          | None \<Rightarrow> Returns (Some row, s1\<lparr>current := 1 - current s1\<rparr>))))))"

section \<open>The engine of connectk4.py\<close>

text \<open>
  The second file holds its own class \<open>Connect4\<close> with the same attributes, so the same
  record is its state. Every method is translated again from that file; the names carry
  the suffix \<open>_k\<close>.
\<close>

text \<open>\<open>Connect4.__init__\<close> of connectk4.py\<close>

definition init_k :: game where
  "init_k =
     \<lparr>rows = ROWS, cols = COLS,
      board = map (\<lambda>_. map (\<lambda>_. - 1) (py_range COLS)) (py_range ROWS),
      current = 0, winner = None, move_count = 0, win_line = None\<rparr>"

text \<open>\<open>Connect4.reset\<close> of connectk4.py\<close>

fun reset_cols_k :: "board \<Rightarrow> int \<Rightarrow> int list \<Rightarrow> board result" where
  "reset_cols_k b r [] = Returns b"
| "reset_cols_k b r (c # cs) = bind_result (set_cell b r c (- 1)) (\<lambda>b'. reset_cols_k b' r cs)"

fun reset_rows_k :: "board \<Rightarrow> int list \<Rightarrow> int list \<Rightarrow> board result" where
  "reset_rows_k b [] cs = Returns b"
| "reset_rows_k b (r # rs) cs = bind_result (reset_cols_k b r cs) (\<lambda>b'. reset_rows_k b' rs cs)"

definition reset_k :: "game \<Rightarrow> game result" where
  "reset_k s =
     bind_result (reset_rows_k (board s) (py_range (rows s)) (py_range (cols s))) (\<lambda>b.
     Returns (s\<lparr>board := b, current := 0, winner := None, move_count := 0, win_line := None\<rparr>))"

text \<open>\<open>Connect4.is_draw\<close> of connectk4.py\<close>

definition is_draw_k :: "game \<Rightarrow> bool" where
  "is_draw_k s = (winner s = None \<and> move_count s = rows s * cols s)"

text \<open>\<open>count_and_last\<close> of connectk4.py: \<open>rr, cc, n = r + dr, c + dc, 0\<close>, then the loop.\<close>

partial_function (option) count_loop_k ::
  "game \<Rightarrow> int \<Rightarrow> int \<Rightarrow> int \<Rightarrow> int \<Rightarrow> int \<Rightarrow> int \<Rightarrow> int \<Rightarrow> int \<Rightarrow> (int \<times> int \<times> int) result" where
  "count_loop_k s player dr dc rr cc n last_r last_c =
     (if 0 \<le> rr \<and> rr < rows s \<and> 0 \<le> cc \<and> cc < cols s then
        (case cell (board s) rr cc of
           None \<Rightarrow> None
         | Some (Inl e) \<Rightarrow> Raises e
         | Some (Inr v) \<Rightarrow>
             if v = player
             then count_loop_k s player dr dc (rr + dr) (cc + dc) (n + 1) rr cc
             else Returns (n, last_r, last_c))
      else Returns (n, last_r, last_c))"

declare count_loop_k.simps [code]

definition count_and_last_k :: "game \<Rightarrow> int \<Rightarrow> int \<Rightarrow> int \<Rightarrow> int \<Rightarrow> int \<Rightarrow> (int \<times> int \<times> int) result" where
  "count_and_last_k s player r c dr dc = count_loop_k s player dr dc (r + dr) (c + dc) 0 r c"

text \<open>
  The direction loop of connectk4.py names the sum \<open>total\<close> and the two endpoints
  \<open>start\<close> and \<open>end\<close> before it returns them.
\<close>

fun span_loop_k :: "game \<Rightarrow> int \<Rightarrow> int \<Rightarrow> int \<Rightarrow> (int \<times> int) list \<Rightarrow> span option result" where
  "span_loop_k s player r c [] = Returns None"
| "span_loop_k s player r c ((dr, dc) # ds) =
     bind_result (count_and_last_k s player r c dr dc) (\<lambda>(f_count, f_r, f_c).
     bind_result (count_and_last_k s player r c (- dr) (- dc)) (\<lambda>(b_count, b_r, b_c).
     let total = 1 + f_count + b_count in
     if total \<ge> 4 then
       (let start = (b_r, b_c); end' = (f_r, f_c) in Returns (Some (start, end')))
     else span_loop_k s player r c ds))"

definition winning_span_k :: "game \<Rightarrow> int \<Rightarrow> int \<Rightarrow> span option result" where
  "winning_span_k s r c =
     bind_result (cell (board s) r c) (\<lambda>player.
     if player = - 1 then Returns None
     else span_loop_k s player r c [(0, 1), (1, 0), (1, 1), (1, - 1)])"

text \<open>\<open>Connect4.drop\<close> of connectk4.py\<close>

function find_row_k :: "game \<Rightarrow> int \<Rightarrow> int \<Rightarrow> int result" where
  "find_row_k s col row =
     (if row \<ge> 0 then
        bind_result (cell (board s) row col) (\<lambda>v.
        if v \<noteq> - 1 then find_row_k s col (row - 1) else Returns row)
      else Returns row)"
  by pat_completeness auto
termination
  by (relation "measure (\<lambda>(s, col, row). nat (row + 1))") auto

declare find_row_k.simps [simp del]

definition drop_disc_k :: "game \<Rightarrow> int \<Rightarrow> (int option \<times> game) result" where
  "drop_disc_k s col =
     (if winner s \<noteq> None then Returns (None, s)
      else if \<not> (0 \<le> col \<and> col < cols s) then Returns (None, s)
      else
        bind_result (cell (board s) 0 col) (\<lambda>top.
        if top \<noteq> - 1 then Returns (None, s)
        else
          bind_result (find_row_k s col (rows s - 1)) (\<lambda>row.
          bind_result (set_cell (board s) row col (current s)) (\<lambda>b.
          let s1 = s\<lparr>board := b, move_count := move_count s + 1\<rparr> in
          bind_result (winning_span_k s1 row col) (\<lambda>win_span.
          case win_span of
            Some line \<Rightarrow> Returns (Some row, s1\<lparr>winner := Some (current s1), win_line := Some line\<rparr>)
          | None \<Rightarrow> Returns (Some row, s1\<lparr>current := 1 - current s1\<rparr>))))))"

section \<open>Sequences of calls\<close>

text \<open>
  A caller constructs the engine and then calls \<open>drop(col)\<close> and \<open>reset()\<close> in any
  order. \<open>call_method\<close> gives the value of one call (\<open>reset\<close> returns \<open>None\<close>) and the
  state after it, \<open>run\<close> the values of a whole sequence of calls and the last state.
\<close>

datatype call = Drop int | Reset

fun call_method :: "game \<Rightarrow> call \<Rightarrow> (int option \<times> game) result" where
  "call_method s (Drop col) = drop_disc s col"
| "call_method s Reset = bind_result (reset s) (\<lambda>s'. Returns (None, s'))"

fun run :: "game \<Rightarrow> call list \<Rightarrow> (int option list \<times> game) result" where
  "run s [] = Returns ([], s)"
| "run s (x # xs) =
     bind_result (call_method s x) (\<lambda>(v, s').
     bind_result (run s' xs) (\<lambda>(vs, s'').
     Returns (v # vs, s'')))"

fun call_method_k :: "game \<Rightarrow> call \<Rightarrow> (int option \<times> game) result" where
  "call_method_k s (Drop col) = drop_disc_k s col"
| "call_method_k s Reset = bind_result (reset_k s) (\<lambda>s'. Returns (None, s'))"

fun run_k :: "game \<Rightarrow> call list \<Rightarrow> (int option list \<times> game) result" where
  "run_k s [] = Returns ([], s)"
| "run_k s (x # xs) =
     bind_result (call_method_k s x) (\<lambda>(v, s').
     bind_result (run_k s' xs) (\<lambda>(vs, s'').
     Returns (v # vs, s'')))"

text \<open>What a caller can read off an engine: the five attributes and \<open>is_draw()\<close>.\<close>

definition observe :: "game \<Rightarrow> board \<times> int \<times> int option \<times> int \<times> span option \<times> bool" where
  "observe s = (board s, current s, winner s, move_count s, win_line s, is_draw s)"

definition observe_k :: "game \<Rightarrow> board \<times> int \<times> int option \<times> int \<times> span option \<times> bool" where
  "observe_k s = (board s, current s, winner s, move_count s, win_line s, is_draw_k s)"

text \<open>The states that construction followed by calls of \<open>drop\<close> and \<open>reset\<close> can reach.\<close>

inductive reachable :: "game \<Rightarrow> bool" where
  reachable_init: "reachable init"
| reachable_drop: "reachable s \<Longrightarrow> drop_disc s col = Returns (v, s') \<Longrightarrow> reachable s'"
| reachable_reset: "reachable s \<Longrightarrow> reset s = Returns s' \<Longrightarrow> reachable s'"

text \<open>A sequence of drops, for building concrete positions.\<close>

fun play :: "game \<Rightarrow> int list \<Rightarrow> game result" where
  "play s [] = Returns s"
| "play s (col # cs) = bind_result (drop_disc s col) (\<lambda>(v, s'). play s' cs)"

section \<open>The win line in the words of the specification\<close>

text \<open>
  A cell is owned by \<open>p\<close> when it lies on the board and holds \<open>p\<close>. \<open>run_len\<close> counts the
  consecutive cells owned by \<open>p\<close> walking outward from \<open>(r, c)\<close> in steps of
  \<open>(dr, dc)\<close>; no walk is longer than the larger side of the board.
\<close>

definition in_bounds :: "game \<Rightarrow> int \<Rightarrow> int \<Rightarrow> bool" where
  "in_bounds s r c = (0 \<le> r \<and> r < rows s \<and> 0 \<le> c \<and> c < cols s)"

definition owned :: "game \<Rightarrow> int \<Rightarrow> int \<Rightarrow> int \<Rightarrow> bool" where
  "owned s p r c = (in_bounds s r c \<and> cell (board s) r c = Returns p)"

definition run_len :: "game \<Rightarrow> int \<Rightarrow> int \<Rightarrow> int \<Rightarrow> int \<Rightarrow> int \<Rightarrow> nat" where
  "run_len s p r c dr dc =
     length (takeWhile (\<lambda>k. owned s p (r + int k * dr) (c + int k * dc))
               [1..<Suc (nat (max (rows s) (cols s)))])"

text \<open>
  The first of the four directions, in the fixed order, whose run through \<open>(r, c)\<close> has
  at least four cells gives the line: its ends are the furthest cell backward and the
  furthest cell forward.
\<close>

definition qualifies :: "game \<Rightarrow> int \<Rightarrow> int \<Rightarrow> int \<Rightarrow> int \<times> int \<Rightarrow> bool" where
  "qualifies s p r c d =
     (1 + run_len s p r c (fst d) (snd d) + run_len s p r c (- fst d) (- snd d) \<ge> 4)"

definition line_of :: "game \<Rightarrow> int \<Rightarrow> int \<Rightarrow> int \<Rightarrow> int \<times> int \<Rightarrow> span" where
  "line_of s p r c d =
     ((r - int (run_len s p r c (- fst d) (- snd d)) * fst d,
       c - int (run_len s p r c (- fst d) (- snd d)) * snd d),
      (r + int (run_len s p r c (fst d) (snd d)) * fst d,
       c + int (run_len s p r c (fst d) (snd d)) * snd d))"

definition spec_win_line :: "game \<Rightarrow> int \<Rightarrow> int \<Rightarrow> int \<Rightarrow> span option" where
  "spec_win_line s p r c =
     map_option (line_of s p r c)
       (find (qualifies s p r c) [(0, 1), (1, 0), (1, 1), (1, - 1)])"

section \<open>Invariants\<close>

text \<open>The board has \<open>rows\<close> rows of \<open>cols\<close> cells each.\<close>

definition well_formed :: "game \<Rightarrow> bool" where
  "well_formed s =
     (int (length (board s)) = rows s \<and> (\<forall>line \<in> set (board s). int (length line) = cols s))"

text \<open>The number of cells of the board that are not empty.\<close>

definition occupied :: "board \<Rightarrow> nat" where
  "occupied b = length (filter (\<lambda>v. v \<noteq> - 1) (concat b))"

text \<open>Gravity: below a disc (at a larger row index, in the same column) no cell is empty.\<close>

definition gravity :: "game \<Rightarrow> bool" where
  "gravity s =
     (\<forall>r r' c. in_bounds s r c \<and> in_bounds s r' c \<and> r < r' \<and> cell (board s) r c \<noteq> Returns (- 1)
        \<longrightarrow> cell (board s) r' c \<noteq> Returns (- 1))"

text \<open>The two attributes \<open>winner\<close> and \<open>win_line\<close> are set together, to sensible values.\<close>

definition outcome_coupled :: "game \<Rightarrow> bool" where
  "outcome_coupled s =
     ((winner s = None \<longleftrightarrow> win_line s = None) \<and>
      (\<forall>w. winner s = Some w \<longrightarrow> w = 0 \<or> w = 1) \<and>
      (\<forall>r0 c0 r1 c1. win_line s = Some ((r0, c0), (r1, c1))
         \<longrightarrow> in_bounds s r0 c0 \<and> in_bounds s r1 c1))"

definition invariant :: "game \<Rightarrow> bool" where
  "invariant s =
     (rows s = ROWS \<and> cols s = COLS \<and> well_formed s \<and> (current s = 0 \<or> current s = 1) \<and>
      move_count s = int (occupied (board s)) \<and> gravity s \<and> outcome_coupled s)"

text \<open>The steps the win detector walks in: one cell along a row, a column or a diagonal.\<close>

definition unit_direction :: "int \<times> int \<Rightarrow> bool" where
  "unit_direction d =
     ((fst d = - 1 \<or> fst d = 0 \<or> fst d = 1) \<and> (snd d = - 1 \<or> snd d = 0 \<or> snd d = 1) \<and>
      (fst d \<noteq> 0 \<or> snd d \<noteq> 0))"

text \<open>
  Concrete games: a finished draw and the position one move before it; a game won by a
  row of six discs and the position one move before it.
\<close>

definition draw_moves :: "int list" where
  "draw_moves =
     [0, 0, 0, 0, 0, 0, 1, 1, 1, 1, 1, 1, 4, 2, 2, 2, 2, 2, 2, 3, 3, 3, 3, 3, 3,
      6, 6, 6, 6, 6, 6, 4, 4, 4, 4, 4, 5, 5, 5, 5, 5, 5]"

definition last_move_state :: game where
  "last_move_state =
     \<lparr>rows = 6, cols = 7,
      board =
        [[1, 1, 0, 0, 1, - 1, 0], [0, 0, 1, 1, 0, 0, 1], [1, 1, 0, 0, 1, 1, 0],
         [0, 0, 1, 1, 0, 0, 1], [1, 1, 0, 0, 1, 1, 0], [0, 0, 1, 1, 0, 0, 1]],
      current = 1, winner = None, move_count = 41, win_line = None\<rparr>"

definition draw_state :: game where
  "draw_state =
     \<lparr>rows = 6, cols = 7,
      board =
        [[1, 1, 0, 0, 1, 1, 0], [0, 0, 1, 1, 0, 0, 1], [1, 1, 0, 0, 1, 1, 0],
         [0, 0, 1, 1, 0, 0, 1], [1, 1, 0, 0, 1, 1, 0], [0, 0, 1, 1, 0, 0, 1]],
      current = 0, winner = None, move_count = 42, win_line = None\<rparr>"

definition won_moves :: "int list" where
  "won_moves = [0, 0, 1, 1, 2, 2, 4, 4, 5, 5, 3]"

definition before_win_state :: game where
  "before_win_state =
     \<lparr>rows = 6, cols = 7,
      board =
        [[- 1, - 1, - 1, - 1, - 1, - 1, - 1], [- 1, - 1, - 1, - 1, - 1, - 1, - 1],
         [- 1, - 1, - 1, - 1, - 1, - 1, - 1], [- 1, - 1, - 1, - 1, - 1, - 1, - 1],
         [1, 1, 1, - 1, 1, 1, - 1], [0, 0, 0, - 1, 0, 0, - 1]],
      current = 0, winner = None, move_count = 10, win_line = None\<rparr>"

definition won_state :: game where
  "won_state =
     \<lparr>rows = 6, cols = 7,
      board =
        [[- 1, - 1, - 1, - 1, - 1, - 1, - 1], [- 1, - 1, - 1, - 1, - 1, - 1, - 1],
         [- 1, - 1, - 1, - 1, - 1, - 1, - 1], [- 1, - 1, - 1, - 1, - 1, - 1, - 1],
         [1, 1, 1, - 1, 1, 1, - 1], [0, 0, 0, 0, 0, 0, - 1]],
      current = 0, winner = Some 0, move_count = 11, win_line = Some ((5, 0), (5, 5))\<rparr>"

section \<open>Results and indexing\<close>

lemma bind_result_simps [simp]:
  "bind_result None f = None"
  "bind_result (Raises e) f = Raises e"
  "bind_result (Returns v) f = f v"
  by (simp_all add: bind_result_def)

lemma bind_result_Returns_iff:
  "bind_result m f = Returns y \<longleftrightarrow> (\<exists>x. m = Returns x \<and> f x = Returns y)"
  by (auto simp: bind_result_def split: option.splits sum.splits)

lemma py_index_in: "0 \<le> i \<Longrightarrow> i < int (length xs) \<Longrightarrow> py_index xs i = Returns (xs ! nat i)"
  by (simp add: py_index_def)

lemma py_store_in: "0 \<le> i \<Longrightarrow> i < int (length xs) \<Longrightarrow> py_store xs i v = Returns (xs[nat i := v])"
  by (simp add: py_store_def)

lemma cell_in:
  "0 \<le> r \<Longrightarrow> r < int (length b) \<Longrightarrow> 0 \<le> c \<Longrightarrow> c < int (length (b ! nat r)) \<Longrightarrow>
   cell b r c = Returns (b ! nat r ! nat c)"
  by (simp add: cell_def py_index_in)

lemma set_cell_in:
  "0 \<le> r \<Longrightarrow> r < int (length b) \<Longrightarrow> 0 \<le> c \<Longrightarrow> c < int (length (b ! nat r)) \<Longrightarrow>
   set_cell b r c v = Returns (b[nat r := (b ! nat r)[nat c := v]])"
  by (simp add: set_cell_def py_index_in py_store_in)

lemma well_formed_cell:
  "well_formed s \<Longrightarrow> in_bounds s r c \<Longrightarrow> cell (board s) r c = Returns (board s ! nat r ! nat c)"
  by (rule cell_in) (auto simp: well_formed_def in_bounds_def)

lemma well_formed_set_cell:
  "well_formed s \<Longrightarrow> in_bounds s r c \<Longrightarrow>
   set_cell (board s) r c v = Returns ((board s)[nat r := (board s ! nat r)[nat c := v]])"
  by (rule set_cell_in) (auto simp: well_formed_def in_bounds_def)

section \<open>The counting loop\<close>

lemma count_loop_owned:
  assumes wf: "well_formed s" and nz: "dr \<noteq> 0 \<or> dc \<noteq> 0"
  shows "\<exists>m::nat. count_loop s p dr dc rr cc n last_r last_c =
            Returns (n + int m, if m = 0 then last_r else rr + (int m - 1) * dr,
                     if m = 0 then last_c else cc + (int m - 1) * dc) \<and>
          (\<forall>k<m. owned s p (rr + int k * dr) (cc + int k * dc)) \<and>
          \<not> owned s p (rr + int m * dr) (cc + int m * dc)"
proof (induction "if dr > 0 then nat (rows s - rr) else if dr < 0 then nat (rr + 1)
                  else if dc > 0 then nat (cols s - cc) else nat (cc + 1)"
       arbitrary: rr cc n last_r last_c rule: less_induct)
  case less
  show ?case
  proof (cases "owned s p rr cc")
    case False
    have "count_loop s p dr dc rr cc n last_r last_c = Returns (n, last_r, last_c)"
    proof (cases "in_bounds s rr cc")
      case True
      with False wf show ?thesis
        by (subst count_loop.simps) (auto simp: owned_def in_bounds_def well_formed_cell)
    next
      case False
      then show ?thesis
        by (subst count_loop.simps) (auto simp: in_bounds_def)
    qed
    with False show ?thesis
      by (intro exI [of _ 0]) simp
  next
    case True
    then have inb: "in_bounds s rr cc" and own: "cell (board s) rr cc = Returns p"
      by (simp_all add: owned_def)
    have step: "count_loop s p dr dc rr cc n last_r last_c =
                count_loop s p dr dc (rr + dr) (cc + dc) (n + 1) rr cc"
      using inb own by (subst count_loop.simps) (simp add: in_bounds_def)
    have smaller:
      "(if dr > 0 then nat (rows s - (rr + dr)) else if dr < 0 then nat (rr + dr + 1)
        else if dc > 0 then nat (cols s - (cc + dc)) else nat (cc + dc + 1))
       < (if dr > 0 then nat (rows s - rr) else if dr < 0 then nat (rr + 1)
          else if dc > 0 then nat (cols s - cc) else nat (cc + 1))"
      using inb nz by (auto simp: in_bounds_def)
    from less [OF smaller, of "n + 1" rr cc] obtain m where
      res: "count_loop s p dr dc (rr + dr) (cc + dc) (n + 1) rr cc =
              Returns (n + 1 + int m, if m = 0 then rr else rr + dr + (int m - 1) * dr,
                       if m = 0 then cc else cc + dc + (int m - 1) * dc)"
      and run: "\<forall>k<m. owned s p (rr + dr + int k * dr) (cc + dc + int k * dc)"
      and stop: "\<not> owned s p (rr + dr + int m * dr) (cc + dc + int m * dc)"
      by blast
    have "count_loop s p dr dc rr cc n last_r last_c =
            Returns (n + int (Suc m), rr + (int (Suc m) - 1) * dr, cc + (int (Suc m) - 1) * dc)"
      using step res by (simp add: algebra_simps)
    moreover have "\<forall>k<Suc m. owned s p (rr + int k * dr) (cc + int k * dc)"
    proof (intro allI impI)
      fix k assume "k < Suc m"
      show "owned s p (rr + int k * dr) (cc + int k * dc)"
      proof (cases k)
        case 0
        with True show ?thesis by simp
      next
        case (Suc j)
        with \<open>k < Suc m\<close> run have "owned s p (rr + dr + int j * dr) (cc + dc + int j * dc)"
          by simp
        with Suc show ?thesis by (simp add: algebra_simps)
      qed
    qed
    moreover have "\<not> owned s p (rr + int (Suc m) * dr) (cc + int (Suc m) * dc)"
      using stop by (simp add: algebra_simps)
    ultimately show ?thesis
      by (intro exI [of _ "Suc m"]) simp
  qed
qed

section \<open>The run length of the specification\<close>

lemma run_len_owned:
  assumes "1 \<le> k" and "k \<le> run_len s p r c dr dc"
  shows "owned s p (r + int k * dr) (c + int k * dc)"
proof -
  let ?P = "\<lambda>k. owned s p (r + int k * dr) (c + int k * dc)"
  let ?xs = "[1..<Suc (nat (max (rows s) (cols s)))]"
  from assms have lt: "k - 1 < length (takeWhile ?P ?xs)"
    by (simp add: run_len_def del: upt_Suc)
  also have "\<dots> \<le> length ?xs"
    by (rule length_takeWhile_le)
  finally have "?xs ! (k - 1) = k"
    using assms(1) by (simp del: upt_Suc)
  moreover have "takeWhile ?P ?xs ! (k - 1) = ?xs ! (k - 1)"
    using lt by (rule takeWhile_nth)
  moreover have "takeWhile ?P ?xs ! (k - 1) \<in> set (takeWhile ?P ?xs)"
    using lt by (rule nth_mem)
  ultimately have "k \<in> set (takeWhile ?P ?xs)"
    by simp
  then show ?thesis
    by (rule set_takeWhileD [THEN conjunct2])
qed

lemma run_len_stop:
  assumes inb: "in_bounds s r c"
    and dr: "dr = - 1 \<or> dr = 0 \<or> dr = 1" and dc: "dc = - 1 \<or> dc = 0 \<or> dc = 1"
    and nz: "dr \<noteq> 0 \<or> dc \<noteq> 0"
  shows "\<not> owned s p (r + int (Suc (run_len s p r c dr dc)) * dr)
                      (c + int (Suc (run_len s p r c dr dc)) * dc)"
proof -
  let ?P = "\<lambda>k. owned s p (r + int k * dr) (c + int k * dc)"
  let ?N = "nat (max (rows s) (cols s))"
  let ?xs = "[1..<Suc ?N]"
  let ?L = "run_len s p r c dr dc"
  have le: "?L \<le> ?N"
    using length_takeWhile_le [of ?P ?xs] by (simp add: run_len_def del: upt_Suc)
  show ?thesis
  proof (cases "?L < ?N")
    case True
    then have "length (takeWhile ?P ?xs) < length ?xs"
      by (simp add: run_len_def del: upt_Suc)
    then have "\<not> ?P (?xs ! length (takeWhile ?P ?xs))"
      by (rule nth_length_takeWhile)
    moreover have "?xs ! length (takeWhile ?P ?xs) = Suc ?L"
      using True by (simp add: run_len_def del: upt_Suc)
    ultimately show ?thesis by simp
  next
    case False
    with le have L: "?L = ?N" by simp
    have "\<not> in_bounds s (r + int (Suc ?N) * dr) (c + int (Suc ?N) * dc)"
      using inb dr dc nz by (auto simp: in_bounds_def)
    then show ?thesis
      unfolding L by (simp add: owned_def)
  qed
qed

lemma count_and_last_run_len:
  assumes wf: "well_formed s" and inb: "in_bounds s r c"
    and dr: "dr = - 1 \<or> dr = 0 \<or> dr = 1" and dc: "dc = - 1 \<or> dc = 0 \<or> dc = 1"
    and nz: "dr \<noteq> 0 \<or> dc \<noteq> 0"
  shows "count_and_last s p r c dr dc =
           Returns (int (run_len s p r c dr dc),
                    r + int (run_len s p r c dr dc) * dr,
                    c + int (run_len s p r c dr dc) * dc)"
proof -
  let ?L = "run_len s p r c dr dc"
  from count_loop_owned [OF wf nz, of p "r + dr" "c + dc" 0 r c] obtain m :: nat where
    res: "count_loop s p dr dc (r + dr) (c + dc) 0 r c =
            Returns (int m, if m = 0 then r else r + dr + (int m - 1) * dr,
                     if m = 0 then c else c + dc + (int m - 1) * dc)"
    and run: "\<forall>k<m. owned s p (r + dr + int k * dr) (c + dc + int k * dc)"
    and stop: "\<not> owned s p (r + dr + int m * dr) (c + dc + int m * dc)"
    by auto
  have "m = ?L"
  proof (rule ccontr)
    assume "m \<noteq> ?L"
    then consider "m < ?L" | "?L < m" by linarith
    then show False
    proof cases
      case 1
      then have "owned s p (r + int (Suc m) * dr) (c + int (Suc m) * dc)"
        by (intro run_len_owned) simp_all
      with stop show False by (simp add: algebra_simps)
    next
      case 2
      with run have "owned s p (r + dr + int ?L * dr) (c + dc + int ?L * dc)"
        by blast
      moreover have "\<not> owned s p (r + int (Suc ?L) * dr) (c + int (Suc ?L) * dc)"
        using inb dr dc nz by (rule run_len_stop)
      ultimately show False by (simp add: algebra_simps)
    qed
  qed
  moreover have "(if m = 0 then r else r + dr + (int m - 1) * dr) = r + int m * dr"
    by (simp add: algebra_simps)
  moreover have "(if m = 0 then c else c + dc + (int m - 1) * dc) = c + int m * dc"
    by (simp add: algebra_simps)
  ultimately show ?thesis
    using res by (simp add: count_and_last_def)
qed

section \<open>The win detector\<close>

lemma span_loop_find:
  assumes wf: "well_formed s" and inb: "in_bounds s r c"
    and units: "\<forall>d \<in> set ds. unit_direction d"
  shows "span_loop s p r c ds = Returns (map_option (line_of s p r c) (find (qualifies s p r c) ds))"
  using units
proof (induction ds)
  case Nil
  show ?case by simp
next
  case (Cons d ds)
  obtain dr dc where d: "d = (dr, dc)" by (cases d)
  from Cons.prems d have u: "unit_direction (dr, dc)" by simp
  have fwd: "count_and_last s p r c dr dc =
               Returns (int (run_len s p r c dr dc), r + int (run_len s p r c dr dc) * dr,
                        c + int (run_len s p r c dr dc) * dc)"
    using u by (intro count_and_last_run_len [OF wf inb]) (simp_all add: unit_direction_def)
  have bwd: "count_and_last s p r c (- dr) (- dc) =
               Returns (int (run_len s p r c (- dr) (- dc)),
                        r + int (run_len s p r c (- dr) (- dc)) * (- dr),
                        c + int (run_len s p r c (- dr) (- dc)) * (- dc))"
    using u by (intro count_and_last_run_len [OF wf inb]) (auto simp: unit_direction_def)
  from Cons have IH: "span_loop s p r c ds =
      Returns (map_option (line_of s p r c) (find (qualifies s p r c) ds))"
    by simp
  have q: "qualifies s p r c (dr, dc) \<longleftrightarrow>
             1 + int (run_len s p r c dr dc) + int (run_len s p r c (- dr) (- dc)) \<ge> 4"
    by (auto simp: qualifies_def)
  show ?case
  proof (cases "qualifies s p r c (dr, dc)")
    case True
    then have "span_loop s p r c ((dr, dc) # ds) = Returns (Some (line_of s p r c (dr, dc)))"
      using q by (simp add: fwd bwd line_of_def)
    with True show ?thesis
      unfolding d by simp
  next
    case False
    then have "span_loop s p r c ((dr, dc) # ds) = span_loop s p r c ds"
      using q by (simp add: fwd bwd)
    with False IH show ?thesis
      unfolding d by simp
  qed
qed

lemma directions_unit: "\<forall>d \<in> set directions. unit_direction d"
  by (simp add: directions_def unit_direction_def)

lemma winning_span_spec:
  assumes "well_formed s" and "in_bounds s r c" and "cell (board s) r c = Returns p" and "p \<noteq> - 1"
  shows "winning_span s r c = Returns (spec_win_line s p r c)"
  using assms span_loop_find [OF assms(1,2) directions_unit, of p]
  by (simp add: winning_span_def spec_win_line_def directions_def)

lemma line_of_in_bounds:
  assumes inb: "in_bounds s r c"
  shows "in_bounds s (fst (fst (line_of s p r c d))) (snd (fst (line_of s p r c d))) \<and>
         in_bounds s (fst (snd (line_of s p r c d))) (snd (snd (line_of s p r c d)))"
proof -
  have end_ok: "in_bounds s (r + int (run_len s p r c dr dc) * dr) (c + int (run_len s p r c dr dc) * dc)"
    for dr dc
  proof (cases "run_len s p r c dr dc = 0")
    case True
    with inb show ?thesis by simp
  next
    case False
    then have "owned s p (r + int (run_len s p r c dr dc) * dr) (c + int (run_len s p r c dr dc) * dc)"
      by (intro run_len_owned) simp_all
    then show ?thesis by (simp add: owned_def)
  qed
  from end_ok [of "fst d" "snd d"] end_ok [of "- fst d" "- snd d"] show ?thesis
    by (simp add: line_of_def)
qed

lemma winning_span_returns:
  assumes wf: "well_formed s" and inb: "in_bounds s r c"
  shows "\<exists>ws. winning_span s r c = Returns ws \<and>
           (\<forall>r0 c0 r1 c1. ws = Some ((r0, c0), (r1, c1)) \<longrightarrow> in_bounds s r0 c0 \<and> in_bounds s r1 c1)"
proof -
  from well_formed_cell [OF wf inb] obtain p where p: "cell (board s) r c = Returns p"
    by blast
  show ?thesis
  proof (cases "p = - 1")
    case True
    with p show ?thesis by (simp add: winning_span_def)
  next
    case False
    have "in_bounds s r0 c0 \<and> in_bounds s r1 c1"
      if "spec_win_line s p r c = Some ((r0, c0), (r1, c1))" for r0 c0 r1 c1
    proof -
      from that obtain d where "line_of s p r c d = ((r0, c0), (r1, c1))"
        by (auto simp: spec_win_line_def)
      with line_of_in_bounds [OF inb, of p d] show ?thesis by simp
    qed
    with winning_span_spec [OF wf inb p False] show ?thesis by blast
  qed
qed

section \<open>Dropping a disc\<close>

lemma find_row_lowest:
  assumes wf: "well_formed s" and col: "0 \<le> col" "col < cols s" and row: "row < rows s"
    and ex: "\<exists>r0. 0 \<le> r0 \<and> r0 \<le> row \<and> cell (board s) r0 col = Returns (- 1)"
  shows "\<exists>r. find_row s col row = Returns r \<and> 0 \<le> r \<and> r \<le> row \<and>
           cell (board s) r col = Returns (- 1) \<and>
           (\<forall>r'. r < r' \<and> r' \<le> row \<longrightarrow> cell (board s) r' col \<noteq> Returns (- 1))"
  using row ex
proof (induction "nat (row + 1)" arbitrary: row rule: less_induct)
  case less
  from less.prems obtain r0 where r0: "0 \<le> r0" "r0 \<le> row" "cell (board s) r0 col = Returns (- 1)"
    by blast
  then have nonneg: "0 \<le> row" by simp
  with less.prems col have "in_bounds s row col"
    by (simp add: in_bounds_def)
  from well_formed_cell [OF wf this] obtain v where v: "cell (board s) row col = Returns v"
    by blast
  show ?case
  proof (cases "v = - 1")
    case True
    with v nonneg have "find_row s col row = Returns row"
      by (subst find_row.simps) simp
    with True v nonneg show ?thesis by auto
  next
    case False
    with v nonneg have step: "find_row s col row = find_row s col (row - 1)"
      by (subst find_row.simps) simp
    from False v r0 have "r0 \<noteq> row" by auto
    with r0 have ex': "\<exists>r0. 0 \<le> r0 \<and> r0 \<le> row - 1 \<and> cell (board s) r0 col = Returns (- 1)"
      by (intro exI [of _ r0]) simp
    have "nat (row - 1 + 1) < nat (row + 1)" using nonneg by simp
    from less.hyps [OF this _ ex'] less.prems(1) obtain r where
      r: "find_row s col (row - 1) = Returns r" "0 \<le> r" "r \<le> row - 1"
         "cell (board s) r col = Returns (- 1)"
         "\<forall>r'. r < r' \<and> r' \<le> row - 1 \<longrightarrow> cell (board s) r' col \<noteq> Returns (- 1)"
      by auto
    have "cell (board s) r' col \<noteq> Returns (- 1)" if "r < r'" "r' \<le> row" for r'
    proof (cases "r' = row")
      case True
      with v False show ?thesis by simp
    next
      case False
      with that r(5) show ?thesis by simp
    qed
    with r step show ?thesis by auto
  qed
qed

lemma well_formed_place:
  assumes wf: "well_formed s" and inb: "in_bounds s r c"
  shows "well_formed (s\<lparr>board := (board s)[nat r := (board s ! nat r)[nat c := v]],
                        move_count := n\<rparr>)"
proof -
  have "length line = nat (cols s)"
    if "line \<in> set ((board s)[nat r := (board s ! nat r)[nat c := v]])" for line
  proof -
    from that have "line = (board s ! nat r)[nat c := v] \<or> line \<in> set (board s)"
      by (auto dest: set_update_subset_insert [THEN subsetD])
    moreover have "board s ! nat r \<in> set (board s)"
      using wf inb by (intro nth_mem) (auto simp: well_formed_def in_bounds_def)
    ultimately show ?thesis
      using wf inb by (auto simp: well_formed_def in_bounds_def)
  qed
  then show ?thesis
    using wf inb by (auto simp: well_formed_def in_bounds_def)
qed

text \<open>What an accepted drop does, step by step.\<close>

lemma drop_accepted:
  assumes wf: "well_formed s" and live: "winner s = None"
    and col: "0 \<le> col" "col < cols s" and rows: "0 < rows s"
    and top: "cell (board s) 0 col = Returns (- 1)"
  shows "\<exists>row ws.
           0 \<le> row \<and> row < rows s \<and> cell (board s) row col = Returns (- 1) \<and>
           (\<forall>r'. row < r' \<and> r' < rows s \<longrightarrow> cell (board s) r' col \<noteq> Returns (- 1)) \<and>
           (\<forall>r0 c0 r1 c1. ws = Some ((r0, c0), (r1, c1)) \<longrightarrow> in_bounds s r0 c0 \<and> in_bounds s r1 c1) \<and>
           winning_span (s\<lparr>board := (board s)[nat row := (board s ! nat row)[nat col := current s]],
                             move_count := move_count s + 1\<rparr>) row col = Returns ws \<and>
           drop_disc s col =
             Returns (Some row,
               case ws of
                 Some line \<Rightarrow>
                   s\<lparr>board := (board s)[nat row := (board s ! nat row)[nat col := current s]],
                      move_count := move_count s + 1,
                      winner := Some (current s), win_line := Some line\<rparr>
               | None \<Rightarrow>
                   s\<lparr>board := (board s)[nat row := (board s ! nat row)[nat col := current s]],
                      move_count := move_count s + 1,
                      current := 1 - current s\<rparr>)"
proof -
  have "\<exists>r0. 0 \<le> r0 \<and> r0 \<le> rows s - 1 \<and> cell (board s) r0 col = Returns (- 1)"
    using top rows by (intro exI [of _ 0]) simp
  from find_row_lowest [OF wf col _ this] obtain row where
    fr: "find_row s col (rows s - 1) = Returns row" and row: "0 \<le> row" "row \<le> rows s - 1"
    and empty: "cell (board s) row col = Returns (- 1)"
    and below: "\<forall>r'. row < r' \<and> r' \<le> rows s - 1 \<longrightarrow> cell (board s) r' col \<noteq> Returns (- 1)"
    by auto
  let ?b = "(board s)[nat row := (board s ! nat row)[nat col := current s]]"
  let ?s1 = "s\<lparr>board := ?b, move_count := move_count s + 1\<rparr>"
  have inb: "in_bounds s row col"
    using row col by (simp add: in_bounds_def)
  have sc: "set_cell (board s) row col (current s) = Returns ?b"
    using wf inb by (rule well_formed_set_cell)
  have wf1: "well_formed ?s1"
    using wf inb by (rule well_formed_place)
  have inb1: "in_bounds ?s1 row col"
    using inb by (simp add: in_bounds_def)
  from winning_span_returns [OF wf1 inb1] obtain ws where
    ws: "winning_span ?s1 row col = Returns ws"
    and ends: "\<forall>r0 c0 r1 c1. ws = Some ((r0, c0), (r1, c1)) \<longrightarrow>
                 in_bounds ?s1 r0 c0 \<and> in_bounds ?s1 r1 c1"
    by blast
  have "drop_disc s col =
          Returns (Some row,
            case ws of
              Some line \<Rightarrow> ?s1\<lparr>winner := Some (current s), win_line := Some line\<rparr>
            | None \<Rightarrow> ?s1\<lparr>current := 1 - current s\<rparr>)"
    using live col top fr sc ws by (simp add: drop_disc_def Let_def split: option.splits)
  moreover have "\<forall>r0 c0 r1 c1. ws = Some ((r0, c0), (r1, c1)) \<longrightarrow>
                   in_bounds s r0 c0 \<and> in_bounds s r1 c1"
    using ends by (simp add: in_bounds_def)
  ultimately show ?thesis
    using row empty below ws by (intro exI [of _ row] exI [of _ ws]) simp
qed

text \<open>What a rejected drop does: nothing.\<close>

lemma drop_rejected:
  assumes wf: "well_formed s" and rows: "0 < rows s"
    and rej: "winner s \<noteq> None \<or> \<not> (0 \<le> col \<and> col < cols s) \<or> cell (board s) 0 col \<noteq> Returns (- 1)"
  shows "drop_disc s col = Returns (None, s)"
proof (cases "winner s \<noteq> None \<or> \<not> (0 \<le> col \<and> col < cols s)")
  case True
  then show ?thesis by (auto simp: drop_disc_def)
next
  case False
  then have "in_bounds s 0 col" using rows by (simp add: in_bounds_def)
  from well_formed_cell [OF wf this] obtain v where v: "cell (board s) 0 col = Returns v"
    by blast
  with rej False have "v \<noteq> - 1" by auto
  with v False show ?thesis by (simp add: drop_disc_def)
qed

section \<open>Placing a disc on the board\<close>

lemma cell_place:
  assumes wf: "well_formed s" and at: "in_bounds s row col" and inb: "in_bounds s r c"
  shows "cell ((board s)[nat row := (board s ! nat row)[nat col := v]]) r c =
           (if r = row \<and> c = col then Returns v else cell (board s) r c)"
proof -
  let ?b = "(board s)[nat row := (board s ! nat row)[nat col := v]]"
  have len: "int (length (board s)) = rows s"
    and line: "\<And>i. i < length (board s) \<Longrightarrow> int (length (board s ! i)) = cols s"
    using wf by (auto simp: well_formed_def)
  have r: "0 \<le> r" "nat r < length (board s)" and c: "0 \<le> c" "nat c < nat (cols s)"
    using inb len by (auto simp: in_bounds_def)
  have row: "0 \<le> row" "nat row < length (board s)" and col: "0 \<le> col" "nat col < nat (cols s)"
    using at len by (auto simp: in_bounds_def)
  have "cell ?b r c = Returns (?b ! nat r ! nat c)"
    using r c row line [of "nat r"] line [of "nat row"]
    by (intro cell_in) (auto simp: nth_list_update)
  moreover have "?b ! nat r ! nat c = (if r = row \<and> c = col then v else board s ! nat r ! nat c)"
    using r c row col line [of "nat row"] by (auto simp: nth_list_update)
  ultimately show ?thesis
    using well_formed_cell [OF wf inb] by simp
qed

lemma filter_length_update:
  assumes "c < length xs" and "\<not> P (xs ! c)" and "P v"
  shows "length (filter P (xs[c := v])) = Suc (length (filter P xs))"
proof -
  have "xs = take c xs @ xs ! c # List.drop (Suc c) xs"
    using assms(1) by (rule id_take_nth_drop)
  then have "length (filter P xs) =
      length (filter P (take c xs)) + length (filter P (List.drop (Suc c) xs))"
    using assms(2) by (metis filter.simps(2) filter_append length_append)
  moreover have "xs[c := v] = take c xs @ v # List.drop (Suc c) xs"
    using assms(1) by (rule upd_conv_take_nth_drop)
  ultimately show ?thesis
    using assms(3) by simp
qed

lemma occupied_sum: "occupied b = sum_list (map (\<lambda>line. length (filter (\<lambda>v. v \<noteq> - 1) line)) b)"
  by (simp add: occupied_def filter_concat length_concat comp_def)

lemma occupied_place:
  assumes r: "r < length b" and c: "c < length (b ! r)" and empty: "b ! r ! c = - 1"
    and v: "v \<noteq> - 1"
  shows "occupied (b[r := (b ! r)[c := v]]) = Suc (occupied b)"
proof -
  let ?n = "\<lambda>line. length (filter (\<lambda>v. v \<noteq> (- 1 :: int)) line)"
  have b: "b = take r b @ b ! r # List.drop (Suc r) b"
    using r by (rule id_take_nth_drop)
  have "occupied b = sum_list (map ?n (take r b)) + ?n (b ! r) + sum_list (map ?n (List.drop (Suc r) b))"
    by (subst b) (simp add: occupied_sum)
  moreover have "b[r := (b ! r)[c := v]] = take r b @ (b ! r)[c := v] # List.drop (Suc r) b"
    using r by (rule upd_conv_take_nth_drop)
  then have "occupied (b[r := (b ! r)[c := v]]) =
      sum_list (map ?n (take r b)) + ?n ((b ! r)[c := v]) + sum_list (map ?n (List.drop (Suc r) b))"
    by (simp add: occupied_sum)
  moreover have "?n ((b ! r)[c := v]) = Suc (?n (b ! r))"
    using c empty v by (intro filter_length_update) simp_all
  ultimately show ?thesis by simp
qed

lemma occupied_full:
  assumes "occupied b = length (concat b)" and "r < length b" and "c < length (b ! r)"
  shows "b ! r ! c \<noteq> - 1"
proof
  assume "b ! r ! c = - 1"
  moreover have "b ! r ! c \<in> set (concat b)"
    using assms(2,3) by (auto intro!: bexI [of _ "b ! r"])
  ultimately have "length (filter (\<lambda>v. v \<noteq> - 1) (concat b)) < length (concat b)"
    by (intro length_filter_less [of "- 1"]) simp_all
  with assms(1) show False by (simp add: occupied_def)
qed

lemma well_formed_cells:
  assumes "well_formed s"
  shows "int (length (concat (board s))) = rows s * cols s"
proof -
  have "map length (board s) = replicate (length (board s)) (nat (cols s))"
    using assms by (intro map_replicate_const [THEN [2] trans] map_cong) (auto simp: well_formed_def)
  then have "length (concat (board s)) = length (board s) * nat (cols s)"
    by (simp add: length_concat sum_list_replicate)
  moreover have "0 \<le> cols s \<or> board s = []"
    using assms by (cases "board s") (auto simp: well_formed_def)
  ultimately show ?thesis
    using assms by (auto simp: well_formed_def)
qed

section \<open>Resetting the board\<close>

lemma reset_cols_cells:
  assumes "0 \<le> r" and "r < int (length b)"
    and "\<forall>c \<in> set cs. 0 \<le> c \<and> c < int (length (b ! nat r))"
  shows "\<exists>b'. reset_cols b r cs = Returns b' \<and> length b' = length b \<and>
           (\<forall>i<length b. length (b' ! i) = length (b ! i)) \<and>
           (\<forall>i<length b. \<forall>j<length (b ! i).
              b' ! i ! j = (if i = nat r \<and> int j \<in> set cs then - 1 else b ! i ! j))"
  using assms
proof (induction cs arbitrary: b)
  case Nil
  then show ?case by simp
next
  case (Cons c cs)
  let ?b1 = "b[nat r := (b ! nat r)[nat c := - 1]]"
  have c: "0 \<le> c" "c < int (length (b ! nat r))"
    using Cons.prems(3) by simp_all
  have sc: "set_cell b r c (- 1) = Returns ?b1"
    using Cons.prems(1,2) c by (rule set_cell_in)
  have len1: "length ?b1 = length b" by simp
  have line1: "length (?b1 ! i) = length (b ! i)" if "i < length b" for i
    using that by (cases "i = nat r") simp_all
  have cell1: "?b1 ! i ! j = (if i = nat r \<and> j = nat c then - 1 else b ! i ! j)"
    if "i < length b" "j < length (b ! i)" for i j
    using that by (cases "i = nat r"; cases "j = nat c") simp_all
  have "\<forall>c \<in> set cs. 0 \<le> c \<and> c < int (length (?b1 ! nat r))"
    using Cons.prems by (simp add: nth_list_update)
  from Cons.IH [OF Cons.prems(1) _ this] Cons.prems(2) obtain b' where
    b': "reset_cols ?b1 r cs = Returns b'" "length b' = length b"
        "\<forall>i<length b. length (b' ! i) = length (?b1 ! i)"
        "\<forall>i<length b. \<forall>j<length (?b1 ! i).
           b' ! i ! j = (if i = nat r \<and> int j \<in> set cs then - 1 else ?b1 ! i ! j)"
    by auto
  have "b' ! i ! j = (if i = nat r \<and> int j \<in> set (c # cs) then - 1 else b ! i ! j)"
    if "i < length b" "j < length (b ! i)" for i j
  proof -
    from that b'(4) line1 have "b' ! i ! j = (if i = nat r \<and> int j \<in> set cs then - 1 else ?b1 ! i ! j)"
      by simp
    with cell1 [OF that] c(1) show ?thesis by auto
  qed
  moreover have "\<forall>i<length b. length (b' ! i) = length (b ! i)"
    using b'(3) line1 by simp
  ultimately show ?case
    using sc b'(1,2) by simp
qed

lemma reset_rows_cells:
  assumes "\<forall>r \<in> set rs. 0 \<le> r \<and> r < int (length b)"
    and "\<forall>i<length b. \<forall>c \<in> set cs. 0 \<le> c \<and> c < int (length (b ! i))"
  shows "\<exists>b'. reset_rows b rs cs = Returns b' \<and> length b' = length b \<and>
           (\<forall>i<length b. length (b' ! i) = length (b ! i)) \<and>
           (\<forall>i<length b. \<forall>j<length (b ! i).
              b' ! i ! j = (if int i \<in> set rs \<and> int j \<in> set cs then - 1 else b ! i ! j))"
  using assms
proof (induction rs arbitrary: b)
  case Nil
  then show ?case by simp
next
  case (Cons r rs)
  have r: "0 \<le> r" "r < int (length b)"
    using Cons.prems(1) by simp_all
  then have "nat r < length b" by simp
  then have "\<forall>c \<in> set cs. 0 \<le> c \<and> c < int (length (b ! nat r))"
    using Cons.prems(2) by blast
  from reset_cols_cells [OF r this] obtain b1 where
    b1: "reset_cols b r cs = Returns b1" "length b1 = length b"
        "\<forall>i<length b. length (b1 ! i) = length (b ! i)"
        "\<forall>i<length b. \<forall>j<length (b ! i).
           b1 ! i ! j = (if i = nat r \<and> int j \<in> set cs then - 1 else b ! i ! j)"
    by blast
  have p1: "\<forall>r \<in> set rs. 0 \<le> r \<and> r < int (length b1)"
    using Cons.prems(1) b1(2) by simp
  have p2: "\<forall>i<length b1. \<forall>c \<in> set cs. 0 \<le> c \<and> c < int (length (b1 ! i))"
    using Cons.prems(2) b1(2,3) by simp
  from Cons.IH [OF p1 p2] b1(2) obtain b' where
    b': "reset_rows b1 rs cs = Returns b'" "length b' = length b"
        "\<forall>i<length b. length (b' ! i) = length (b1 ! i)"
        "\<forall>i<length b. \<forall>j<length (b1 ! i).
           b' ! i ! j = (if int i \<in> set rs \<and> int j \<in> set cs then - 1 else b1 ! i ! j)"
    by auto
  have "b' ! i ! j = (if int i \<in> set (r # rs) \<and> int j \<in> set cs then - 1 else b ! i ! j)"
    if "i < length b" "j < length (b ! i)" for i j
  proof -
    from that b'(4) b1(3) have
      "b' ! i ! j = (if int i \<in> set rs \<and> int j \<in> set cs then - 1 else b1 ! i ! j)"
      by simp
    with b1(4) that r(1) show ?thesis by auto
  qed
  moreover have "\<forall>i<length b. length (b' ! i) = length (b ! i)"
    using b'(3) b1(3) by simp
  ultimately show ?case
    using b1(1) b'(1,2) by simp
qed

lemma reset_well_formed:
  assumes wf: "well_formed s"
  shows "reset s =
           Returns (s\<lparr>board := replicate (nat (rows s)) (replicate (nat (cols s)) (- 1)),
                      current := 0, winner := None, move_count := 0, win_line := None\<rparr>)"
proof -
  have len: "int (length (board s)) = rows s"
    and line: "\<And>i. i < length (board s) \<Longrightarrow> int (length (board s ! i)) = cols s"
    using wf by (auto simp: well_formed_def)
  have p1: "\<forall>r \<in> set (py_range (rows s)). 0 \<le> r \<and> r < int (length (board s))"
    using len by (auto simp: py_range_def)
  have p2: "\<forall>i<length (board s). \<forall>c \<in> set (py_range (cols s)). 0 \<le> c \<and> c < int (length (board s ! i))"
    using line by (auto simp: py_range_def)
  from reset_rows_cells [OF p1 p2] obtain b' where
    b': "reset_rows (board s) (py_range (rows s)) (py_range (cols s)) = Returns b'"
        "length b' = length (board s)"
        "\<forall>i<length (board s). length (b' ! i) = length (board s ! i)"
        "\<forall>i<length (board s). \<forall>j<length (board s ! i).
           b' ! i ! j = (if int i \<in> set (py_range (rows s)) \<and> int j \<in> set (py_range (cols s))
                         then - 1 else board s ! i ! j)"
    by blast
  have "b' = replicate (nat (rows s)) (replicate (nat (cols s)) (- 1))"
  proof (rule nth_equalityI)
    show "length b' = length (replicate (nat (rows s)) (replicate (nat (cols s)) (- 1 :: int)))"
      using b'(2) len by simp
  next
    fix i assume "i < length b'"
    then have i: "i < length (board s)" using b'(2) by simp
    then have i': "i < nat (rows s)" using len by simp
    have "b' ! i = replicate (nat (cols s)) (- 1)"
    proof (rule nth_equalityI)
      show "length (b' ! i) = length (replicate (nat (cols s)) (- 1 :: int))"
        using b'(3) i line [OF i] by simp
    next
      fix j assume "j < length (b' ! i)"
      then have j: "j < length (board s ! i)" using b'(3) i by simp
      then have j': "j < nat (cols s)" using line [OF i] by simp
      have "int i \<in> set (py_range (rows s))" "int j \<in> set (py_range (cols s))"
        using i' j' by (auto simp: py_range_def)
      with b'(4) i j have "b' ! i ! j = - 1" by simp
      with j' show "b' ! i ! j = replicate (nat (cols s)) (- 1) ! j" by simp
    qed
    with i' show "b' ! i = replicate (nat (rows s)) (replicate (nat (cols s)) (- 1)) ! i"
      by simp
  qed
  with b'(1) show ?thesis by (simp add: reset_def)
qed

lemma init_board: "board init = replicate 6 (replicate 7 (- 1))"
  by (simp add: init_def py_range_def ROWS_def COLS_def map_replicate_const)

lemma reset_to_init:
  assumes "well_formed s" and "rows s = ROWS" and "cols s = COLS"
  shows "reset s = Returns init"
proof -
  have "s\<lparr>board := replicate (nat (rows s)) (replicate (nat (cols s)) (- 1)),
          current := 0, winner := None, move_count := 0, win_line := None\<rparr> = init"
    using assms(2,3) init_board by (simp add: init_def ROWS_def COLS_def)
  with reset_well_formed [OF assms(1)] show ?thesis by simp
qed

section \<open>The invariant holds in every reachable state\<close>

lemma well_formed_init: "well_formed init"
  by (simp add: well_formed_def init_def py_range_def ROWS_def COLS_def)

lemma cell_init: "in_bounds init r c \<Longrightarrow> cell (board init) r c = Returns (- 1)"
proof -
  assume inb: "in_bounds init r c"
  then have "nat r < 6" "nat c < 7"
    by (auto simp: in_bounds_def init_def ROWS_def COLS_def)
  then have "board init ! nat r ! nat c = - 1"
    by (simp add: init_board)
  with well_formed_cell [OF well_formed_init inb] show ?thesis by simp
qed

lemma occupied_init: "occupied (board init) = 0"
  by (simp add: init_board occupied_def)

lemma invariant_init: "invariant init"
proof -
  have "gravity init"
    by (auto simp: gravity_def cell_init)
  moreover have "outcome_coupled init"
    by (simp add: outcome_coupled_def init_def)
  ultimately show ?thesis
    using well_formed_init occupied_init by (simp add: invariant_def) (simp add: init_def)
qed

lemma well_formed_nth:
  assumes wf: "well_formed s" and inb: "in_bounds s r c"
  shows "nat r < length (board s)" and "nat c < length (board s ! nat r)"
proof -
  show r: "nat r < length (board s)"
    using wf inb by (auto simp: well_formed_def in_bounds_def)
  then have "board s ! nat r \<in> set (board s)" by (rule nth_mem)
  with wf have "int (length (board s ! nat r)) = cols s"
    by (simp add: well_formed_def)
  with inb show "nat c < length (board s ! nat r)"
    by (auto simp: in_bounds_def)
qed

lemma gravity_place:
  assumes wf: "well_formed s" and g: "gravity s" and at: "in_bounds s row col"
    and below: "\<forall>r'. row < r' \<and> r' < rows s \<longrightarrow> cell (board s) r' col \<noteq> Returns (- 1)"
    and v: "v \<noteq> - 1"
    and s': "rows s' = rows s" "cols s' = cols s"
            "board s' = (board s)[nat row := (board s ! nat row)[nat col := v]]"
  shows "gravity s'"
  unfolding gravity_def
proof (intro allI impI, elim conjE)
  fix r r' c
  assume "in_bounds s' r c" and "in_bounds s' r' c" and lt: "r < r'"
    and disc: "cell (board s') r c \<noteq> Returns (- 1)"
  then have inb: "in_bounds s r c" and inb': "in_bounds s r' c"
    using s'(1,2) by (simp_all add: in_bounds_def)
  have new: "cell (board s') r c = (if r = row \<and> c = col then Returns v else cell (board s) r c)"
    and new': "cell (board s') r' c = (if r' = row \<and> c = col then Returns v else cell (board s) r' c)"
    unfolding s'(3) using cell_place [OF wf at inb] cell_place [OF wf at inb'] by simp_all
  show "cell (board s') r' c \<noteq> Returns (- 1)"
  proof (cases "r' = row \<and> c = col")
    case True
    with new' v show ?thesis by simp
  next
    case False
    with new' have same': "cell (board s') r' c = cell (board s) r' c" by auto
    show ?thesis
    proof (cases "r = row \<and> c = col")
      case True
      with lt inb' have "row < r'" "r' < rows s" by (simp_all add: in_bounds_def)
      with below True same' show ?thesis by simp
    next
      case other: False
      with new disc have "cell (board s) r c \<noteq> Returns (- 1)" by auto
      with g inb inb' lt have "cell (board s) r' c \<noteq> Returns (- 1)"
        unfolding gravity_def by blast
      with same' show ?thesis by simp
    qed
  qed
qed

lemma invariant_drop_disc:
  assumes inv: "invariant s" and d: "drop_disc s col = Returns (v, s')"
  shows "invariant s'"
proof (cases "winner s \<noteq> None \<or> \<not> (0 \<le> col \<and> col < cols s) \<or> cell (board s) 0 col \<noteq> Returns (- 1)")
  case True
  from inv have "well_formed s" "0 < rows s"
    by (simp_all add: invariant_def ROWS_def)
  from drop_rejected [OF this True] d inv show ?thesis by simp
next
  case False
  from inv have wf: "well_formed s" and rows: "0 < rows s" and cur: "current s = 0 \<or> current s = 1"
    and cnt: "move_count s = int (occupied (board s))" and g: "gravity s"
    and oc: "outcome_coupled s" and dims: "rows s = ROWS" "cols s = COLS"
    by (simp_all add: invariant_def ROWS_def)
  from False have live: "winner s = None" and col: "0 \<le> col" "col < cols s"
    and top: "cell (board s) 0 col = Returns (- 1)"
    by simp_all
  let ?b = "\<lambda>row. (board s)[nat row := (board s ! nat row)[nat col := current s]]"
  from drop_accepted [OF wf live col rows top] d obtain row ws where
    row: "0 \<le> row" "row < rows s" and empty: "cell (board s) row col = Returns (- 1)"
    and below: "\<forall>r'. row < r' \<and> r' < rows s \<longrightarrow> cell (board s) r' col \<noteq> Returns (- 1)"
    and ends: "\<forall>r0 c0 r1 c1. ws = Some ((r0, c0), (r1, c1)) \<longrightarrow> in_bounds s r0 c0 \<and> in_bounds s r1 c1"
    and s': "s' = (case ws of
                     Some line \<Rightarrow>
                       s\<lparr>board := ?b row, move_count := move_count s + 1,
                          winner := Some (current s), win_line := Some line\<rparr>
                   | None \<Rightarrow>
                       s\<lparr>board := ?b row, move_count := move_count s + 1,
                          current := 1 - current s\<rparr>)"
    by auto
  have at: "in_bounds s row col"
    using row col by (simp add: in_bounds_def)
  have fields: "rows s' = rows s" "cols s' = cols s" "board s' = ?b row"
    "move_count s' = move_count s + 1"
    unfolding s' by (simp_all split: option.splits)
  have cur_ne: "current s \<noteq> - 1" using cur by auto
  have wf': "well_formed s'"
    using well_formed_place [OF wf at, where v = "current s"] fields by (simp add: well_formed_def)
  have "board s ! nat row ! nat col = - 1"
    using well_formed_cell [OF wf at] empty by simp
  moreover have "nat row < length (board s)" "nat col < length (board s ! nat row)"
    using wf at by (rule well_formed_nth)+
  ultimately have "occupied (?b row) = Suc (occupied (board s))"
    using cur_ne by (intro occupied_place) simp_all
  then have cnt': "move_count s' = int (occupied (board s'))"
    using fields cnt by simp
  have g': "gravity s'"
    using wf g at below cur_ne fields(1,2,3) by (rule gravity_place)
  have cur': "current s' = 0 \<or> current s' = 1"
    unfolding s' using cur by (auto split: option.splits)
  have oc': "outcome_coupled s'"
  proof (cases ws)
    case None
    with s' live oc show ?thesis by (simp add: outcome_coupled_def)
  next
    case (Some line)
    with s' ends cur show ?thesis
      by (cases line) (auto simp: outcome_coupled_def in_bounds_def)
  qed
  from dims fields wf' cur' cnt' g' oc' show ?thesis
    by (simp add: invariant_def)
qed

lemma invariant_reset:
  assumes "invariant s" and "reset s = Returns s'"
  shows "invariant s'"
proof -
  from assms(1) have "reset s = Returns init"
    by (intro reset_to_init) (simp_all add: invariant_def)
  with assms(2) invariant_init show ?thesis by simp
qed

lemma reachable_invariant: "reachable s \<Longrightarrow> invariant s"
  by (induction rule: reachable.induct)
     (auto intro: invariant_init invariant_drop_disc invariant_reset)

lemma reachable_play: "reachable s \<Longrightarrow> play s cs = Returns s' \<Longrightarrow> reachable s'"
proof (induction cs arbitrary: s)
  case Nil
  then show ?case by simp
next
  case (Cons col cs)
  from Cons.prems(2) obtain v s1 where
    "drop_disc s col = Returns (v, s1)" and "play s1 cs = Returns s'"
    by (auto simp: bind_result_Returns_iff)
  with Cons.prems(1) Cons.IH show ?case
    by (blast intro: reachable_drop)
qed

lemma play_draw: "play init (butlast draw_moves) = Returns last_move_state"
    "play init draw_moves = Returns draw_state"
  by code_simp+

lemma play_won: "play init (butlast won_moves) = Returns before_win_state"
    "play init won_moves = Returns won_state"
  by code_simp+

lemma reachable_examples:
  "reachable last_move_state" "reachable draw_state" "reachable before_win_state" "reachable won_state"
  using play_draw play_won by (blast intro: reachable_play reachable_init)+

section \<open>The two engines are the same\<close>

lemma count_loop_k_of_count_loop:
  "count_loop s p dr dc rr cc n last_r last_c = Some y \<Longrightarrow>
   count_loop_k s p dr dc rr cc n last_r last_c = Some y"
proof (induction rule: count_loop.raw_induct [rotated, consumes 1])
  case (1 loop s p dr dc rr cc n last_r last_c y)
  show ?case
    by (subst count_loop_k.simps) (use 1 in \<open>auto split: if_splits option.splits sum.splits\<close>)
qed

lemma count_loop_of_count_loop_k:
  "count_loop_k s p dr dc rr cc n last_r last_c = Some y \<Longrightarrow>
   count_loop s p dr dc rr cc n last_r last_c = Some y"
proof (induction rule: count_loop_k.raw_induct [rotated, consumes 1])
  case (1 loop s p dr dc rr cc n last_r last_c y)
  show ?case
    by (subst count_loop.simps) (use 1 in \<open>auto split: if_splits option.splits sum.splits\<close>)
qed

lemma count_loop_k_eq: "count_loop_k s p dr dc rr cc n last_r last_c = count_loop s p dr dc rr cc n last_r last_c"
proof (cases "count_loop s p dr dc rr cc n last_r last_c")
  case None
  show ?thesis
  proof (cases "count_loop_k s p dr dc rr cc n last_r last_c")
    case inner: None
    with None show ?thesis by simp
  next
    case (Some y)
    from count_loop_of_count_loop_k [OF this] None show ?thesis by simp
  qed
next
  case (Some y)
  from count_loop_k_of_count_loop [OF this] Some show ?thesis by simp
qed

lemma count_and_last_k_eq: "count_and_last_k s p r c dr dc = count_and_last s p r c dr dc"
  by (simp add: count_and_last_k_def count_and_last_def count_loop_k_eq)

lemma span_loop_k_eq: "span_loop_k s p r c ds = span_loop s p r c ds"
proof (induction ds)
  case Nil
  show ?case by simp
next
  case (Cons d ds)
  then show ?case
    by (cases d) (simp add: count_and_last_k_eq Let_def case_prod_beta cong: if_cong)
qed

lemma winning_span_k_eq: "winning_span_k s r c = winning_span s r c"
  by (simp add: winning_span_k_def winning_span_def directions_def span_loop_k_eq cong: if_cong)

lemma find_row_k_eq: "find_row_k s col row = find_row s col row"
proof (induction "nat (row + 1)" arbitrary: row rule: less_induct)
  case less
  show ?case
  proof (cases "0 \<le> row")
    case True
    then have IH: "find_row_k s col (row - 1) = find_row s col (row - 1)"
      by (intro less) simp
    show ?thesis
      by (subst find_row_k.simps, subst find_row.simps) (simp add: IH cong: if_cong)
  next
    case False
    then show ?thesis
      by (subst find_row_k.simps, subst find_row.simps) simp
  qed
qed

lemma drop_disc_k_eq: "drop_disc_k s col = drop_disc s col"
  by (simp add: drop_disc_k_def drop_disc_def find_row_k_eq winning_span_k_eq cong: if_cong)

lemma reset_cols_k_eq: "reset_cols_k b r cs = reset_cols b r cs"
  by (induction cs arbitrary: b) simp_all

lemma reset_rows_k_eq: "reset_rows_k b rs cs = reset_rows b rs cs"
  by (induction rs arbitrary: b) (simp_all add: reset_cols_k_eq)

lemma reset_k_eq: "reset_k s = reset s"
  by (simp add: reset_k_def reset_def reset_rows_k_eq)

lemma run_k_eq: "run_k s calls = run s calls"
proof (induction calls arbitrary: s)
  case Nil
  show ?case by simp
next
  case (Cons x calls)
  have "call_method_k s x = call_method s x"
    by (cases x) (simp_all add: drop_disc_k_eq reset_k_eq)
  with Cons show ?case by simp
qed

lemma drop_disc_returns:
  assumes "reachable s"
  shows "\<exists>v s'. drop_disc s col = Returns (v, s')"
proof (cases "winner s \<noteq> None \<or> \<not> (0 \<le> col \<and> col < cols s) \<or> cell (board s) 0 col \<noteq> Returns (- 1)")
  case True
  from reachable_invariant [OF assms] have "well_formed s" "0 < rows s"
    by (simp_all add: invariant_def ROWS_def)
  from drop_rejected [OF this True] show ?thesis by blast
next
  case False
  from reachable_invariant [OF assms] have "well_formed s" "0 < rows s"
    by (simp_all add: invariant_def ROWS_def)
  with False drop_accepted [of s col] show ?thesis
    by (metis (no_types, lifting))
qed

lemma run_returns:
  assumes "reachable s"
  shows "\<exists>vs s'. run s calls = Returns (vs, s') \<and> reachable s'"
  using assms
proof (induction calls arbitrary: s)
  case Nil
  then show ?case by simp
next
  case (Cons x calls)
  have "\<exists>v s1. call_method s x = Returns (v, s1) \<and> reachable s1"
  proof (cases x)
    case (Drop col)
    from drop_disc_returns [OF Cons.prems, of col] obtain v s1 where
      "drop_disc s col = Returns (v, s1)" by blast
    with Cons.prems Drop show ?thesis
      by (auto intro: reachable_drop)
  next
    case Reset
    from reachable_invariant [OF Cons.prems] have "reset s = Returns init"
      by (intro reset_to_init) (simp_all add: invariant_def)
    with Reset show ?thesis
      by (auto intro: reachable_init)
  qed
  then obtain v s1 where step: "call_method s x = Returns (v, s1)" and "reachable s1"
    by blast
  from Cons.IH [OF this(2)] obtain vs s' where "run s1 calls = Returns (vs, s')" "reachable s'"
    by blast
  with step show ?case by simp
qed

section \<open>Properties of the engine\<close>

text \<open>
  C1. The win detector, called on a cell of the board that holds a player \<open>p\<close>, returns
  what the specification describes: it goes through the directions \<open>(0, 1)\<close>, \<open>(1, 0)\<close>,
  \<open>(1, 1)\<close>, \<open>(1, -1)\<close> in this order, counts in each the consecutive cells of \<open>p\<close>
  forward and backward, takes the first direction with \<open>1 + forward + backward \<ge> 4\<close>
  and returns the furthest backward cell and the furthest forward cell of that
  direction, so a run of more than four cells is spanned whole; with no such direction
  it returns \<open>None\<close>. It neither raises nor loops.
\<close>

theorem winning_span_first_qualifying_direction:
  assumes "well_formed s" and "in_bounds s r c" and "cell (board s) r c = Returns p" and "p \<noteq> - 1"
  shows "winning_span s r c =
           Returns (map_option (line_of s p r c)
                      (find (qualifies s p r c) [(0, 1), (1, 0), (1, 1), (1, - 1)]))"
  using winning_span_spec [OF assms] by (simp add: spec_win_line_def)

theorem winning_span_first_qualifying_direction_witness:
  "well_formed won_state \<and> in_bounds won_state 5 3 \<and> cell (board won_state) 5 3 = Returns 0 \<and>
   qualifies won_state 0 5 3 (0, 1) \<and>
   winning_span won_state 5 3 = Returns (Some ((5, 0), (5, 5)))"
proof -
  have wf: "well_formed won_state" by code_simp
  have inb: "in_bounds won_state 5 3" by code_simp
  have own: "cell (board won_state) 5 3 = Returns 0" by code_simp
  have q: "qualifies won_state 0 5 3 (0, 1)" by code_simp
  have line: "map_option (line_of won_state 0 5 3)
                (find (qualifies won_state 0 5 3) [(0, 1), (1, 0), (1, 1), (1, - 1)]) =
              Some ((5, 0), (5, 5))"
    by code_simp
  from winning_span_first_qualifying_direction [OF wf inb own] wf inb own q line
  show ?thesis by simp
qed

text \<open>
  C2. In a reachable state with no winner, a drop into a column \<open>col\<close> of the board whose
  top cell is empty is accepted: it returns a row index \<open>row\<close> of the board; that cell was
  empty (nothing is overwritten); every cell beneath it in the column holds a disc, so
  \<open>row\<close> is the lowest empty row and the disc rests on the discs already there, not
  somewhere above them; no cell over it holds a disc; after the call the cell holds the
  current player, every other cell is as before, and \<open>move_count\<close> is one larger.
\<close>

theorem drop_disc_lands_on_lowest_empty_row:
  assumes "reachable s" and "winner s = None" and "0 \<le> col" and "col < cols s"
    and "cell (board s) 0 col = Returns (- 1)"
  shows "\<exists>row s'. drop_disc s col = Returns (Some row, s') \<and> 0 \<le> row \<and> row < rows s \<and>
           cell (board s) row col = Returns (- 1) \<and>
           (\<forall>r'. row < r' \<and> r' < rows s \<longrightarrow> cell (board s) r' col \<noteq> Returns (- 1)) \<and>
           (\<forall>r'. 0 \<le> r' \<and> r' < row \<longrightarrow> cell (board s) r' col = Returns (- 1)) \<and>
           cell (board s') row col = Returns (current s) \<and>
           (\<forall>r c. in_bounds s r c \<and> (r, c) \<noteq> (row, col) \<longrightarrow> cell (board s') r c = cell (board s) r c) \<and>
           move_count s' = move_count s + 1"
proof -
  from reachable_invariant [OF assms(1)] have wf: "well_formed s" and rows: "0 < rows s"
    and g: "gravity s"
    by (simp_all add: invariant_def ROWS_def)
  from drop_accepted [OF wf assms(2,3,4) rows assms(5)] obtain row ws where
    row: "0 \<le> row" "row < rows s" and empty: "cell (board s) row col = Returns (- 1)"
    and below: "\<forall>r'. row < r' \<and> r' < rows s \<longrightarrow> cell (board s) r' col \<noteq> Returns (- 1)"
    and d: "drop_disc s col =
      Returns (Some row,
        case ws of
          Some line \<Rightarrow>
            s\<lparr>board := (board s)[nat row := (board s ! nat row)[nat col := current s]],
               move_count := move_count s + 1,
               winner := Some (current s), win_line := Some line\<rparr>
        | None \<Rightarrow>
            s\<lparr>board := (board s)[nat row := (board s ! nat row)[nat col := current s]],
               move_count := move_count s + 1,
               current := 1 - current s\<rparr>)"
    by blast
  then obtain s' where d': "drop_disc s col = Returns (Some row, s')"
    and board': "board s' = (board s)[nat row := (board s ! nat row)[nat col := current s]]"
    and count': "move_count s' = move_count s + 1"
    by (cases ws) simp_all
  have at: "in_bounds s row col"
    using row assms(3,4) by (simp add: in_bounds_def)
  have cells: "cell (board s') r c = (if r = row \<and> c = col then Returns (current s) else cell (board s) r c)"
    if "in_bounds s r c" for r c
    unfolding board' using wf at that by (rule cell_place)
  have above: "cell (board s) r' col = Returns (- 1)" if "0 \<le> r'" "r' < row" for r'
  proof (rule ccontr)
    assume "cell (board s) r' col \<noteq> Returns (- 1)"
    moreover have "in_bounds s r' col"
      using that row assms(3,4) by (simp add: in_bounds_def)
    ultimately have "cell (board s) row col \<noteq> Returns (- 1)"
      using g at that(2) unfolding gravity_def by blast
    with empty show False by simp
  qed
  have "cell (board s') row col = Returns (current s)"
    using cells [OF at] by simp
  moreover have "\<forall>r c. in_bounds s r c \<and> (r, c) \<noteq> (row, col) \<longrightarrow> cell (board s') r c = cell (board s) r c"
    using cells by auto
  ultimately show ?thesis
    using d' row empty below above count' by blast
qed

theorem drop_disc_lands_on_lowest_empty_row_witness:
  "reachable last_move_state \<and> cell (board last_move_state) 0 5 = Returns (- 1) \<and>
   cell (board last_move_state) 1 5 = Returns 0 \<and>
   drop_disc last_move_state 5 = Returns (Some 0, draw_state) \<and>
   cell (board draw_state) 0 5 = Returns 1 \<and> move_count draw_state = 42"
proof -
  have live: "winner last_move_state = None" and col: "(0::int) \<le> 5" "5 < cols last_move_state"
    and top: "cell (board last_move_state) 0 5 = Returns (- 1)"
    and under: "cell (board last_move_state) 1 5 = Returns 0"
    by code_simp+
  have d: "drop_disc last_move_state 5 = Returns (Some 0, draw_state)"
    by code_simp
  have after: "cell (board draw_state) 0 5 = Returns 1" "move_count draw_state = 42"
    by code_simp+
  from drop_disc_lands_on_lowest_empty_row [OF reachable_examples(1) live col top]
  have "\<exists>row s'. drop_disc last_move_state 5 = Returns (Some row, s')"
    by blast
  with reachable_examples(1) top under d after show ?thesis by simp
qed

text \<open>
  C3, as the specification states it, fails: the accepted move that fills the board
  without winning flips the player like any other move that does not win. In the position
  \<open>last_move_state\<close> (41 discs, player 1 to move) the drop into column 5 is accepted,
  nobody has won after it, \<open>move_count\<close> is \<open>6 * 7\<close>, and the player is now 0.
\<close>

theorem board_filling_move_flips_current:
  "reachable last_move_state \<and> current last_move_state = 1 \<and>
   drop_disc last_move_state 5 = Returns (Some 0, draw_state) \<and>
   winner draw_state = None \<and> move_count draw_state = rows draw_state * cols draw_state \<and>
   current draw_state = 0"
proof -
  have "current last_move_state = 1" "drop_disc last_move_state 5 = Returns (Some 0, draw_state)"
    "winner draw_state = None" "move_count draw_state = rows draw_state * cols draw_state"
    "current draw_state = 0"
    by code_simp+
  with reachable_examples(1) show ?thesis by simp
qed

text \<open>
  C3, amended. For every accepted drop in a reachable state: when the move wins, the
  player is unchanged; when it does not win (the board may be full after it or not), the
  player flips once, from 0 to 1 or from 1 to 0.
\<close>

theorem current_flips_unless_win:
  assumes "reachable s" and "drop_disc s col = Returns (Some row, s')"
  shows "(winner s' \<noteq> None \<longrightarrow> current s' = current s) \<and>
         (winner s' = None \<longrightarrow> current s' = 1 - current s \<and> current s' \<noteq> current s) \<and>
         (current s' = 0 \<or> current s' = 1)"
proof -
  from reachable_invariant [OF assms(1)] have wf: "well_formed s" and rows: "0 < rows s"
    and cur: "current s = 0 \<or> current s = 1"
    by (simp_all add: invariant_def ROWS_def)
  have acc: "\<not> (winner s \<noteq> None \<or> \<not> (0 \<le> col \<and> col < cols s) \<or> cell (board s) 0 col \<noteq> Returns (- 1))"
  proof
    assume "winner s \<noteq> None \<or> \<not> (0 \<le> col \<and> col < cols s) \<or> cell (board s) 0 col \<noteq> Returns (- 1)"
    from drop_rejected [OF wf rows this] assms(2) show False by simp
  qed
  then have live: "winner s = None" and col: "0 \<le> col" "col < cols s"
    and top: "cell (board s) 0 col = Returns (- 1)"
    by simp_all
  from drop_accepted [OF wf live col rows top] assms(2) obtain ws b where
    "s' = (case ws of
             Some line \<Rightarrow>
               s\<lparr>board := b, move_count := move_count s + 1,
                  winner := Some (current s), win_line := Some line\<rparr>
           | None \<Rightarrow> s\<lparr>board := b, move_count := move_count s + 1, current := 1 - current s\<rparr>)"
    by auto
  with live cur show ?thesis
    by (cases ws) (auto, presburger+)
qed

theorem current_flips_unless_win_witness:
  "current before_win_state = 0 \<and> drop_disc before_win_state 3 = Returns (Some 5, won_state) \<and>
   winner won_state = Some 0 \<and> current won_state = 0 \<and>
   current last_move_state = 1 \<and> drop_disc last_move_state 5 = Returns (Some 0, draw_state) \<and>
   winner draw_state = None \<and> current draw_state = 0"
proof -
  have d1: "drop_disc before_win_state 3 = Returns (Some 5, won_state)"
    and d2: "drop_disc last_move_state 5 = Returns (Some 0, draw_state)"
    by code_simp+
  have vals: "current before_win_state = 0" "winner won_state = Some 0"
    "current last_move_state = 1" "winner draw_state = None"
    by code_simp+
  from current_flips_unless_win [OF reachable_examples(3) d1]
    current_flips_unless_win [OF reachable_examples(1) d2] d1 d2 vals
  show ?thesis by simp
qed

text \<open>
  C4. In a reachable state, for every integer \<open>col\<close>, negative or too large included: if
  the game already has a winner, or \<open>col\<close> is not a column of the board, or the top cell
  of the column is taken, then the drop returns \<open>None\<close>, raises nothing, and leaves the
  state (board, player, move count, winner, win line) exactly as it was.
\<close>

theorem rejected_drop_returns_None_unchanged:
  assumes "reachable s"
    and "winner s \<noteq> None \<or> col < 0 \<or> cols s \<le> col \<or> cell (board s) 0 col \<noteq> Returns (- 1)"
  shows "drop_disc s col = Returns (None, s)"
proof -
  from reachable_invariant [OF assms(1)] have "well_formed s" "0 < rows s"
    by (simp_all add: invariant_def ROWS_def)
  moreover from assms(2) have
    "winner s \<noteq> None \<or> \<not> (0 \<le> col \<and> col < cols s) \<or> cell (board s) 0 col \<noteq> Returns (- 1)"
    by auto
  ultimately show ?thesis by (rule drop_rejected)
qed

theorem rejected_drop_returns_None_unchanged_witness:
  "winner won_state \<noteq> None \<and> drop_disc won_state 6 = Returns (None, won_state) \<and>
   drop_disc last_move_state (- 1) = Returns (None, last_move_state) \<and>
   cols last_move_state \<le> 7 \<and> drop_disc last_move_state 7 = Returns (None, last_move_state) \<and>
   cell (board last_move_state) 0 0 \<noteq> Returns (- 1) \<and>
   drop_disc last_move_state 0 = Returns (None, last_move_state)"
proof -
  have over: "winner won_state \<noteq> None" and right: "cols last_move_state \<le> 7"
    and full: "cell (board last_move_state) 0 0 \<noteq> Returns (- 1)"
    by code_simp+
  from rejected_drop_returns_None_unchanged [OF reachable_examples(4), of 6]
    rejected_drop_returns_None_unchanged [OF reachable_examples(1), of "- 1"]
    rejected_drop_returns_None_unchanged [OF reachable_examples(1), of 7]
    rejected_drop_returns_None_unchanged [OF reachable_examples(1), of 0]
    over right full
  show ?thesis by simp
qed

text \<open>
  C6. In a reachable state with no winner and \<open>move_count = rows * cols\<close>, every cell of
  the board holds a disc, \<open>is_draw\<close> is true, and a drop into any column, on the board or
  not, returns \<open>None\<close> and leaves the state as it was.
\<close>

theorem full_board_is_draw_and_rejects:
  assumes "reachable s" and "winner s = None" and "move_count s = rows s * cols s"
  shows "is_draw s \<and> drop_disc s col = Returns (None, s) \<and>
         (\<forall>r c. in_bounds s r c \<longrightarrow> cell (board s) r c \<noteq> Returns (- 1))"
proof -
  from reachable_invariant [OF assms(1)] have wf: "well_formed s" and rows: "0 < rows s"
    and cnt: "move_count s = int (occupied (board s))"
    by (simp_all add: invariant_def ROWS_def)
  from cnt assms(3) well_formed_cells [OF wf] have full: "occupied (board s) = length (concat (board s))"
    by simp
  have taken: "cell (board s) r c \<noteq> Returns (- 1)" if "in_bounds s r c" for r c
  proof -
    from well_formed_nth [OF wf that] have "board s ! nat r ! nat c \<noteq> - 1"
      by (intro occupied_full [OF full])
    with well_formed_cell [OF wf that] show ?thesis by simp
  qed
  have "winner s \<noteq> None \<or> \<not> (0 \<le> col \<and> col < cols s) \<or> cell (board s) 0 col \<noteq> Returns (- 1)"
    using taken [of 0 col] rows by (auto simp: in_bounds_def)
  from drop_rejected [OF wf rows this] taken assms(2,3) show ?thesis
    by (simp add: is_draw_def)
qed

theorem full_board_is_draw_and_rejects_witness:
  "winner draw_state = None \<and> move_count draw_state = rows draw_state * cols draw_state \<and>
   is_draw draw_state \<and> drop_disc draw_state 3 = Returns (None, draw_state) \<and>
   drop_disc draw_state 7 = Returns (None, draw_state) \<and>
   drop_disc draw_state (- 2) = Returns (None, draw_state)"
proof -
  have live: "winner draw_state = None"
    and full: "move_count draw_state = rows draw_state * cols draw_state"
    by code_simp+
  from full_board_is_draw_and_rejects [OF reachable_examples(2) live full, of 3]
    full_board_is_draw_and_rejects [OF reachable_examples(2) live full, of 7]
    full_board_is_draw_and_rejects [OF reachable_examples(2) live full, of "- 2"]
    live full
  show ?thesis by simp
qed

text \<open>
  C7. From every reachable state \<open>reset\<close> returns, and the state it leaves is the state
  of a fresh construction: six rows of seven empty cells, player 0, no winner, no win
  line, move count 0. A second \<open>reset\<close> right after the first gives the same state again.
\<close>

theorem reset_gives_fresh_state:
  assumes "reachable s"
  shows "reset s = Returns init \<and> bind_result (reset s) reset = reset s \<and>
         board init = replicate 6 (replicate 7 (- 1)) \<and> current init = 0 \<and>
         winner init = None \<and> win_line init = None \<and> move_count init = 0"
proof -
  have fresh: "reset t = Returns init" if "reachable t" for t
    using reachable_invariant [OF that] by (intro reset_to_init) (simp_all add: invariant_def)
  from fresh [OF assms] fresh [OF reachable_init] init_board show ?thesis
    by (simp add: init_def)
qed

theorem reset_gives_fresh_state_witness:
  "reachable won_state \<and> reset won_state = Returns init \<and>
   bind_result (reset won_state) reset = reset won_state"
proof -
  from reset_gives_fresh_state [OF reachable_examples(4)]
  have "reset won_state = Returns init" "bind_result (reset won_state) reset = reset won_state"
    by blast+
  with reachable_examples(4) show ?thesis by blast
qed

text \<open>
  C8. \<open>is_draw\<close> reads the winner and the move count and writes nothing: it is a function
  of the state alone, so a call leaves the state as it is and a second call gives the same
  value. In a reachable state it is true exactly when there is no winner and the move
  count is \<open>ROWS * COLS\<close>, the number of cells of the board.
\<close>

theorem is_draw_iff_no_winner_and_full:
  assumes "reachable s"
  shows "is_draw s \<longleftrightarrow> winner s = None \<and> move_count s = ROWS * COLS"
  using reachable_invariant [OF assms] by (simp add: is_draw_def invariant_def)

theorem is_draw_iff_no_winner_and_full_witness:
  "is_draw draw_state \<and> winner draw_state = None \<and> move_count draw_state = ROWS * COLS \<and>
   \<not> is_draw won_state \<and> \<not> is_draw last_move_state"
proof -
  have "winner draw_state = None" "move_count draw_state = ROWS * COLS"
    "winner won_state \<noteq> None" "move_count last_move_state \<noteq> ROWS * COLS"
    by code_simp+
  with is_draw_iff_no_winner_and_full [OF reachable_examples(2)]
    is_draw_iff_no_winner_and_full [OF reachable_examples(4)]
    is_draw_iff_no_winner_and_full [OF reachable_examples(1)]
  show ?thesis by simp
qed

text \<open>
  C9. In every state reachable from construction by calls of \<open>drop\<close> (accepted or
  rejected) and \<open>reset\<close>, the move count is the number of cells of the board that are not
  empty; so it is after one more call of either method.
\<close>

theorem move_count_is_number_of_discs:
  assumes "reachable s"
  shows "move_count s = int (occupied (board s)) \<and>
         (\<forall>col v s'. drop_disc s col = Returns (v, s') \<longrightarrow> move_count s' = int (occupied (board s'))) \<and>
         (\<forall>s'. reset s = Returns s' \<longrightarrow> move_count s' = int (occupied (board s')))"
proof -
  have count: "move_count t = int (occupied (board t))" if "reachable t" for t
    using reachable_invariant [OF that] by (simp add: invariant_def)
  from assms show ?thesis
    by (blast intro: count reachable_drop reachable_reset)
qed

theorem move_count_is_number_of_discs_witness:
  "move_count before_win_state = 10 \<and> occupied (board before_win_state) = 10 \<and>
   drop_disc before_win_state 3 = Returns (Some 5, won_state) \<and>
   move_count won_state = int (occupied (board won_state)) \<and>
   drop_disc before_win_state 7 = Returns (None, before_win_state) \<and>
   reset before_win_state = Returns init \<and> move_count init = int (occupied (board init))"
proof -
  have d: "drop_disc before_win_state 3 = Returns (Some 5, won_state)"
    "drop_disc before_win_state 7 = Returns (None, before_win_state)"
    by code_simp+
  have r: "reset before_win_state = Returns init"
    by code_simp
  have n: "move_count before_win_state = 10" "occupied (board before_win_state) = 10"
    by code_simp+
  from move_count_is_number_of_discs [OF reachable_examples(3)] d r n
  show ?thesis by simp
qed

text \<open>
  C10. In every reachable state \<open>winner\<close> is set exactly when \<open>win_line\<close> is set; a winner
  is player 0 or player 1; both cells of a win line lie on the board. Every call of
  \<open>drop\<close> and \<open>reset\<close> leads to a reachable state again, so it keeps the coupling.
\<close>

theorem winner_and_win_line_coupled:
  assumes "reachable s"
  shows "(winner s = None \<longleftrightarrow> win_line s = None) \<and>
         (\<forall>w. winner s = Some w \<longrightarrow> w = 0 \<or> w = 1) \<and>
         (\<forall>r0 c0 r1 c1. win_line s = Some ((r0, c0), (r1, c1)) \<longrightarrow>
            in_bounds s r0 c0 \<and> in_bounds s r1 c1)"
  using reachable_invariant [OF assms] by (simp add: invariant_def outcome_coupled_def)

theorem winner_and_win_line_coupled_witness:
  "winner won_state = Some 0 \<and> win_line won_state = Some ((5, 0), (5, 5)) \<and>
   in_bounds won_state 5 0 \<and> in_bounds won_state 5 5 \<and>
   winner draw_state = None \<and> win_line draw_state = None"
proof -
  have "winner won_state = Some 0" "win_line won_state = Some ((5, 0), (5, 5))"
    "winner draw_state = None"
    by code_simp+
  with winner_and_win_line_coupled [OF reachable_examples(4)]
    winner_and_win_line_coupled [OF reachable_examples(2)]
  show ?thesis by simp
qed

text \<open>
  C5. For every sequence of \<open>drop(col)\<close> and \<open>reset()\<close> calls made on a freshly
  constructed engine, the class of connect4.py and the class of connectk4.py both return
  from every call, return the same values call by call, and end in states with the same
  board, player, winner, move count, win line and \<open>is_draw()\<close>.
\<close>

theorem engines_equivalent:
  "\<exists>vs s s_k. run init calls = Returns (vs, s) \<and> run_k init_k calls = Returns (vs, s_k) \<and>
     observe_k s_k = observe s"
proof -
  from run_returns [OF reachable_init, of calls] obtain vs s where
    "run init calls = Returns (vs, s)" by blast
  moreover have "run_k init_k calls = run init calls"
    by (simp add: run_k_eq init_k_def init_def)
  moreover have "observe_k s = observe s"
    by (simp add: observe_k_def observe_def is_draw_k_def is_draw_def)
  ultimately show ?thesis by auto
qed

end
